theory Spec2Isabelle
  imports Complex_Main "HOL-Library.Sublist"
begin

section \<open>Python strings and lists\<close>

text \<open>
  A Python \<^verbatim>\<open>str\<close> is a sequence of Unicode code points, and \<^verbatim>\<open>len\<close>, slicing and
  \<^verbatim>\<open>in\<close> work on code points. A string is therefore a list of code points (natural
  numbers), not a list of bytes. \<open>asc\<close> embeds an ASCII literal.
\<close>

type_synonym rune = nat
type_synonym pystr = "rune list"

definition asc :: "string \<Rightarrow> pystr" where
  "asc s = map of_char s"

text \<open>
  \<^verbatim>\<open>xs[i:j]\<close>: a negative index counts from the end, and both indices are clamped to the
  list, so a slice never raises.
\<close>

definition py_slice :: "'a list \<Rightarrow> int \<Rightarrow> int \<Rightarrow> 'a list" where
  "py_slice xs i j =
     (let n = int (length xs);
          lo = (if i < 0 then max 0 (n + i) else min i n);
          hi = (if j < 0 then max 0 (n + j) else min j n)
      in take (nat (hi - lo)) (drop (nat lo) xs))"

text \<open>\<^verbatim>\<open>sub in s\<close> for strings: \<open>sub\<close> occurs in \<open>s\<close> as a contiguous run.\<close>

fun py_in :: "'a list \<Rightarrow> 'a list \<Rightarrow> bool" where
  "py_in sub [] = (sub = [])"
| "py_in sub (c # cs) = (prefix sub (c # cs) \<or> py_in sub cs)"



text \<open>\<^verbatim>\<open>sep.join(parts)\<close>.\<close>

fun py_join :: "'a list \<Rightarrow> 'a list list \<Rightarrow> 'a list" where
  "py_join sep [] = []"
| "py_join sep [x] = x"
| "py_join sep (x # y # ys) = x @ sep @ py_join sep (y # ys)"

text \<open>
  \<^verbatim>\<open>s.split()\<close> without an argument splits at runs of whitespace and returns no empty
  string. The whitespace code points are those of \<^verbatim>\<open>str.isspace\<close>.
\<close>

definition is_space :: "rune \<Rightarrow> bool" where
  "is_space c \<longleftrightarrow>
     (9 \<le> c \<and> c \<le> 13) \<or> (28 \<le> c \<and> c \<le> 32) \<or> c = 133 \<or> c = 160 \<or> c = 5760 \<or>
     (8192 \<le> c \<and> c \<le> 8202) \<or> c = 8232 \<or> c = 8233 \<or> c = 8239 \<or> c = 8287 \<or> c = 12288"

fun split_ws :: "pystr \<Rightarrow> pystr \<Rightarrow> pystr list" where
  "split_ws cur [] = (if cur = [] then [] else [cur])"
| "split_ws cur (c # cs) =
     (if is_space c then (if cur = [] then split_ws [] cs else cur # split_ws [] cs)
      else split_ws (cur @ [c]) cs)"

definition py_split :: "pystr \<Rightarrow> pystr list" where
  "py_split s = split_ws [] s"

text \<open>
  \<^verbatim>\<open>s.split(sep)\<close> with a separator: leftmost, non-overlapping occurrences, empty parts
  kept. Python raises \<^verbatim>\<open>ValueError\<close> on an empty separator; the source only passes a
  fixed non-empty marker, and an empty separator never matches here.
\<close>

fun split_at :: "'a list \<Rightarrow> 'a list \<Rightarrow> 'a list \<Rightarrow> 'a list list" where
  "split_at sep cur [] = [cur]"
| "split_at sep cur (c # cs) =
     (if sep \<noteq> [] \<and> prefix sep (c # cs)
      then cur # split_at sep [] (drop (length sep - 1) cs)
      else split_at sep (cur @ [c]) cs)"

definition py_split_sep :: "'a list \<Rightarrow> 'a list \<Rightarrow> 'a list list" where
  "py_split_sep s sep = split_at sep [] s"

section \<open>Configuration (app/config.py)\<close>

record config =
  max_sources :: int
  max_context_length :: int
  chunk_size :: int
  chunk_overlap :: int

section \<open>Chunker: \<^verbatim>\<open>VectorStore._split_text\<close> and \<^verbatim>\<open>ingest_text\<close> (app/vector.py)\<close>

text \<open>
  Both branches of \<^verbatim>\<open>_split_text\<close> run the same loop, over the one-character strings of
  the text joined by \<^verbatim>\<open>''\<close> or over its words joined by \<^verbatim>\<open>' '\<close>:
  \<^verbatim>\<open>
  i = 0
  while i < len(units):
      end = min(i + chunk_size, len(units))
      chunk = sep.join(units[i:end])
      chunks.append(chunk)
      if end >= len(units):
          break
      i += (chunk_size - chunk_overlap)
  \<close>
  The loop has no bound of its own, so it is a partial function: \<open>None\<close> is a run
  that never leaves the loop.
\<close>

partial_function (option) window_loop ::
  "pystr \<Rightarrow> pystr list \<Rightarrow> int \<Rightarrow> int \<Rightarrow> int \<Rightarrow> pystr list \<Rightarrow> pystr list option" where
  "window_loop sep units csize coverlap i chunks =
     (if i < int (length units) then
        (let end = min (i + csize) (int (length units));
             chunk = py_join sep (py_slice units i end);
             chunks' = chunks @ [chunk]
         in if end \<ge> int (length units) then Some chunks'
            else window_loop sep units csize coverlap
                   (i + (csize - coverlap)) chunks')
      else Some chunks)"

declare window_loop.simps [code]

definition is_cjk :: "rune \<Rightarrow> bool" where
  "is_cjk c \<longleftrightarrow> 0x4e00 \<le> c \<and> c \<le> 0x9fff"

text \<open>
  \<^verbatim>\<open>cjk_ratio = cjk_count / len(runes) if runes else 0\<close>, compared with \<^verbatim>\<open>0.3\<close>. The
  quotient is taken exactly here; the source's binary64 comparison gives the same answer
  for every text shorter than \<open>2^52\<close> characters.
\<close>

definition cjk_ratio :: "pystr \<Rightarrow> rat" where
  "cjk_ratio runes =
     (if runes \<noteq> [] then of_nat (length (filter is_cjk runes)) / of_nat (length runes) else 0)"

definition cjk_dominant :: "pystr \<Rightarrow> bool" where
  "cjk_dominant t \<longleftrightarrow> cjk_ratio t > 3 / 10"

definition split_text :: "config \<Rightarrow> pystr \<Rightarrow> pystr list option" where
  "split_text cfg t =
     (let csize = (if chunk_size cfg \<le> 0 then 1000 else chunk_size cfg);
          coverlap = (if chunk_overlap cfg < 0 then 200 else chunk_overlap cfg)
      in if cjk_dominant t
         then window_loop [] (map (\<lambda>c. [c]) t) csize coverlap 0 []
         else window_loop [32] (py_split t) csize coverlap 0 [])"

text \<open>
  A stored chunk. The source's metadata dictionary has exactly the keys \<^verbatim>\<open>source\<close> and
  \<^verbatim>\<open>chunk\<close>.
\<close>

record document =
  page_content :: pystr
  source :: pystr
  chunk :: nat

text \<open>\<^verbatim>\<open>ingest_text\<close> appends one document per chunk and returns the number of chunks.\<close>

definition ingest_text ::
  "config \<Rightarrow> document list \<Rightarrow> pystr \<Rightarrow> pystr \<Rightarrow> (document list \<times> int) option" where
  "ingest_text cfg docs source_name content =
     (case split_text cfg content of
        None \<Rightarrow> None
      | Some chunks \<Rightarrow>
          Some (docs @ map (\<lambda>(i, c). \<lparr>page_content = c, source = source_name, chunk = i\<rparr>)
                         (enumerate 0 chunks),
                int (length chunks)))"

text \<open>
  Removing the declared overlap: every chunk after the first loses its first \<open>k\<close>
  units, and the rest is concatenated.
\<close>

definition unoverlap :: "nat \<Rightarrow> 'a list list \<Rightarrow> 'a list" where
  "unoverlap k ws = (case ws of [] \<Rightarrow> [] | w # rest \<Rightarrow> w @ concat (map (drop k) rest))"

text \<open>A token of \<^verbatim>\<open>str.split()\<close>: non-empty and free of whitespace.\<close>

definition token :: "pystr \<Rightarrow> bool" where
  "token w \<longleftrightarrow> w \<noteq> [] \<and> (\<forall>c \<in> set w. \<not> is_space c)"

text \<open>
  Concrete inputs: a configuration with the defaults of \<^verbatim>\<open>Config\<close> except for the two
  chunking fields, and an English text of 2500 words.
\<close>

definition notex_config :: "int \<Rightarrow> int \<Rightarrow> config" where
  "notex_config cs ov =
     \<lparr>max_sources = 5, max_context_length = 128000, chunk_size = cs, chunk_overlap = ov\<rparr>"

definition english_2500 :: pystr where
  "english_2500 = concat (replicate 2500 (asc ''w ''))"

section \<open>RelevanceRanker: \<^verbatim>\<open>VectorStore.similarity_search\<close> (app/vector.py)\<close>

text \<open>
  \<^verbatim>\<open>str.lower\<close> is the Unicode lower-casing of the Python library; the search takes it
  as the parameter \<open>lower\<close>, and every statement below holds for any such function.
  The scores are Python floats in the source and exact rationals here: the sums and the
  quotient \<^verbatim>\<open>match_count / len(query_runes)\<close> are taken without rounding.
\<close>

text \<open>The fixed interrogative and reference terms of the source, as code points.\<close>

definition question_keywords :: "pystr list" where
  "question_keywords = [[20171, 32461], [20160, 20040], [21861], [20869, 23481], [25991, 26723], [35828]]"

text \<open>
  \<^verbatim>\<open>for word in query_words: if len(word) > 2 and word in content: score += 2.0\<close>
\<close>

fun word_loop :: "pystr \<Rightarrow> pystr list \<Rightarrow> rat \<Rightarrow> rat" where
  "word_loop content [] score = score"
| "word_loop content (word # ws) score =
     word_loop content ws (if length word > 2 \<and> py_in word content then score + 2 else score)"

text \<open>
  \<^verbatim>\<open>for keyword in question_keywords: if keyword in query_lower: score += 1.0; break\<close>
\<close>

fun keyword_loop :: "pystr \<Rightarrow> pystr list \<Rightarrow> rat \<Rightarrow> rat" where
  "keyword_loop query_lower [] score = score"
| "keyword_loop query_lower (keyword # ks) score =
     (if py_in keyword query_lower then score + 1 else keyword_loop query_lower ks score)"

text \<open>The body of the loop over the stored documents: the score of one document.\<close>

definition score_doc :: "(pystr \<Rightarrow> pystr) \<Rightarrow> pystr \<Rightarrow> document \<Rightarrow> rat" where
  "score_doc lower query_lower doc =
     (let content = lower (page_content doc);
          score = 0;
          score = (if py_in query_lower content then score + 10 else score);
          match_count = length (filter (\<lambda>c. py_in [c] content) query_lower);
          score = (if match_count > 0
                   then score + (of_nat match_count / of_nat (length query_lower)) * 5
                   else score);
          score = word_loop content (py_split query_lower) score;
          score = keyword_loop query_lower question_keywords score
      in score)"

text \<open>The loop itself: a document is appended to \<^verbatim>\<open>scored_docs\<close> when its score is positive.\<close>

fun score_loop ::
  "(pystr \<Rightarrow> pystr) \<Rightarrow> pystr \<Rightarrow> document list \<Rightarrow> (document \<times> rat) list \<Rightarrow> (document \<times> rat) list" where
  "score_loop lower query_lower [] scored_docs = scored_docs"
| "score_loop lower query_lower (doc # docs) scored_docs =
     (let score = score_doc lower query_lower doc
      in score_loop lower query_lower docs
           (if score > 0 then scored_docs @ [(doc, score)] else scored_docs))"

text \<open>
  \<^verbatim>\<open>xs.sort(key=key, reverse=True)\<close>: the sort of the Python library is stable, also with
  \<^verbatim>\<open>reverse=True\<close>, where elements with equal keys keep their original order. It is the
  stable ascending sort by the negated key.
\<close>

definition sort_reverse :: "('a \<Rightarrow> rat) \<Rightarrow> 'a list \<Rightarrow> 'a list" where
  "sort_reverse key xs = sort_key (\<lambda>x. - key x) xs"

definition similarity_search ::
  "(pystr \<Rightarrow> pystr) \<Rightarrow> document list \<Rightarrow> pystr \<Rightarrow> int \<Rightarrow> document list" where
  "similarity_search lower docs query num_docs =
     (let num_docs = (if num_docs \<le> 0 then 5 else num_docs)
      in if length docs = 0 then []
         else
           (let query_lower = lower query;
                scored_docs = score_loop lower query_lower docs [];
                scored_docs = sort_reverse snd scored_docs
            in if length scored_docs = 0 then py_slice docs 0 num_docs
               else map fst (py_slice scored_docs 0 num_docs)))"

text \<open>
  The scoring and ranking in the words of the specification. \<open>q\<close> is the lower-cased
  query; \<open>chunk_text\<close> says which text of a chunk is matched: the chunk as stored
  (\<open>id\<close>) or the lower-cased chunk (\<open>lower\<close>).
\<close>

definition char_fraction :: "pystr \<Rightarrow> pystr \<Rightarrow> rat" where
  "char_fraction q content =
     (if q = [] then 0
      else of_nat (length (filter (\<lambda>c. c \<in> set content) q)) / of_nat (length q))"

definition spec_score :: "pystr \<Rightarrow> pystr \<Rightarrow> rat" where
  "spec_score q content =
     (if py_in q content then 10 else 0)
     + 5 * char_fraction q content
     + 2 * of_nat (length (filter (\<lambda>w. length w > 2 \<and> py_in w content) (py_split q)))
     + (if \<exists>k \<in> set question_keywords. py_in k q then 1 else 0)"

definition spec_ranked ::
  "(pystr \<Rightarrow> pystr) \<Rightarrow> (pystr \<Rightarrow> pystr) \<Rightarrow> document list \<Rightarrow> pystr \<Rightarrow> (document \<times> rat) list" where
  "spec_ranked chunk_text lower docs query =
     filter (\<lambda>p. snd p \<noteq> 0)
       (map (\<lambda>d. (d, spec_score (lower query) (chunk_text (page_content d)))) docs)"

definition spec_search ::
  "(pystr \<Rightarrow> pystr) \<Rightarrow> (pystr \<Rightarrow> pystr) \<Rightarrow> document list \<Rightarrow> pystr \<Rightarrow> int \<Rightarrow> document list" where
  "spec_search chunk_text lower docs query limit =
     (let k = nat (if limit \<le> 0 then 5 else limit);
          ranked = sort_key (\<lambda>p. - snd p) (spec_ranked chunk_text lower docs query)
      in if docs = [] then []
         else if ranked = [] then take k docs
         else take k (map fst ranked))"

text \<open>
  Concrete inputs: \<^verbatim>\<open>str.lower\<close> on ASCII text, and documents with an ASCII content.
\<close>

definition ascii_lower :: "pystr \<Rightarrow> pystr" where
  "ascii_lower s = map (\<lambda>c. if 65 \<le> c \<and> c \<le> 90 then c + 32 else c) s"

definition doc_of :: "string \<Rightarrow> nat \<Rightarrow> document" where
  "doc_of s i = \<lparr>page_content = asc s, source = asc ''src'', chunk = i\<rparr>"


section \<open>SlideParser: \<^verbatim>\<open>Agent.parse_ppt_slides\<close> (app/agent.py)\<close>














section \<open>ExternalToolInvoker: \<^verbatim>\<open>Agent._call_deepinsight\<close> (app/agent.py)\<close>

















section \<open>GenerationOrchestrator: \<^verbatim>\<open>Agent.generate_transformation\<close> (app/agent.py)\<close>




















section \<open>The transform endpoint: \<^verbatim>\<open>transform\<close> (app/server.py)\<close>

























section \<open>Properties of the chunker\<close>

subsection \<open>The window loop leaves no gap when the step is positive\<close>

lemma py_slice_inside:
  "0 \<le> i \<Longrightarrow> i \<le> j \<Longrightarrow> j \<le> int (length xs) \<Longrightarrow>
   py_slice xs i j = take (nat (j - i)) (drop (nat i) xs)"
  by (simp add: py_slice_def Let_def min_def)

lemma unoverlap_Cons:
  "unoverlap k (w # ws) = w @ concat (map (drop k) ws)"
  by (simp add: unoverlap_def)

lemma window_loop_total:
  assumes "0 < csize" "0 \<le> coverlap" "coverlap < csize" "0 \<le> i"
  shows "\<exists>W. window_loop sep units csize coverlap i chunks = Some (chunks @ map (py_join sep) W)
           \<and> (\<forall>w \<in> set W. set w \<subseteq> set units)
           \<and> (if i < int (length units)
               then W \<noteq> [] \<and> hd W = take (nat csize) (drop (nat i) units)
                    \<and> unoverlap (nat coverlap) W = drop (nat i) units
               else W = [])"
  using assms(4)
proof (induction "nat (int (length units) - i)" arbitrary: i chunks rule: less_induct)
  case less
  let ?n = "int (length units)"
  show ?case
  proof (cases "i < ?n")
    case False
    then have "window_loop sep units csize coverlap i chunks = Some chunks"
      by (subst window_loop.simps) simp
    with False show ?thesis by (intro exI[of _ "[]"]) simp
  next
    case True
    show ?thesis
    proof (cases "i + csize \<ge> ?n")
      case True
      have sl: "py_slice units i (min (i + csize) ?n) = drop (nat i) units"
        using True \<open>i < ?n\<close> less.prems by (simp add: py_slice_inside min_def)
      have "window_loop sep units csize coverlap i chunks
              = Some (chunks @ [py_join sep (drop (nat i) units)])"
        using True \<open>i < ?n\<close> sl by (subst window_loop.simps) (simp add: Let_def)
      moreover have "take (nat csize) (drop (nat i) units) = drop (nat i) units"
        using True less.prems by simp
      ultimately show ?thesis
        using \<open>i < ?n\<close> by (intro exI[of _ "[drop (nat i) units]"]) (auto simp: unoverlap_Cons dest: in_set_dropD)
    next
      case False
      let ?i' = "i + (csize - coverlap)"
      let ?w = "take (nat csize) (drop (nat i) units)"
      have sl: "py_slice units i (min (i + csize) ?n) = ?w"
        using False less.prems assms(1) by (simp add: py_slice_inside min_def)
      have step: "window_loop sep units csize coverlap i chunks
              = window_loop sep units csize coverlap ?i' (chunks @ [py_join sep ?w])"
        using False \<open>i < ?n\<close> sl by (subst window_loop.simps) (simp add: Let_def)
      have lt: "?i' < ?n" "0 \<le> ?i'" using False assms less.prems by simp_all
      have "nat (?n - ?i') < nat (?n - i)" using assms lt by simp
      from less.hyps[OF this lt(2), of "chunks @ [py_join sep ?w]"] lt(1)
      obtain W where W: "window_loop sep units csize coverlap ?i' (chunks @ [py_join sep ?w])
              = Some ((chunks @ [py_join sep ?w]) @ map (py_join sep) W)"
         "\<forall>w \<in> set W. set w \<subseteq> set units"
         "W \<noteq> []" "hd W = take (nat csize) (drop (nat ?i') units)"
         "unoverlap (nat coverlap) W = drop (nat ?i') units"
        by auto
      obtain w' W' where WW: "W = w' # W'" using W(3) by (cases W) auto
      have len: "nat coverlap \<le> length w'"
      proof -
        have "length w' = min (nat csize) (length units - nat ?i')"
          using W(4) WW by (simp add: min.commute)
        moreover have "nat coverlap \<le> nat csize" using assms by simp
        moreover have "nat coverlap \<le> length units - nat ?i'"
          using False assms less.prems by linarith
        ultimately show ?thesis by simp
      qed
      have "drop (nat coverlap) (w' @ concat (map (drop (nat coverlap)) W'))
              = drop (nat coverlap) w' @ concat (map (drop (nat coverlap)) W')"
        using len by simp
      then have "drop (nat coverlap) w' @ concat (map (drop (nat coverlap)) W')
              = drop (nat coverlap) (drop (nat ?i') units)"
        using W(5) WW by (simp only: unoverlap_Cons)
      then have "unoverlap (nat coverlap) (?w # W) = ?w @ drop (nat coverlap) (drop (nat ?i') units)"
        using WW by (simp add: unoverlap_Cons)
      also have "drop (nat coverlap) (drop (nat ?i') units) = drop (nat csize) (drop (nat i) units)"
        using assms less.prems by (simp add: nat_add_distrib[symmetric] add.commute)
      finally have un: "unoverlap (nat coverlap) (?w # W) = drop (nat i) units"
        by (simp only: append_take_drop_id)
      have "set ?w \<subseteq> set units"
        by (meson in_set_dropD in_set_takeD subsetI)
      with W(2) have sub: "\<forall>w \<in> set (?w # W). set w \<subseteq> set units" by simp
      show ?thesis
        using step W(1) un sub \<open>i < ?n\<close>
        by (intro exI[of _ "?w # W"]) simp
    qed
  qed
qed

lemma split_ws_tokens:
  "\<forall>c \<in> set cur. \<not> is_space c \<Longrightarrow> \<forall>w \<in> set (split_ws cur s). token w"
proof (induction s arbitrary: cur)
  case Nil
  then show ?case by (simp add: token_def)
next
  case (Cons c cs)
  have nil: "\<forall>w \<in> set (split_ws [] cs). token w" using Cons.IH[of "[]"] by simp
  show ?case
  proof (cases "is_space c")
    case True
    then show ?thesis using nil Cons.prems by (simp add: token_def)
  next
    case False
    then have "\<forall>w \<in> set (split_ws (cur @ [c]) cs). token w"
      using Cons.prems by (intro Cons.IH) simp
    then show ?thesis using False by simp
  qed
qed

lemma py_split_tokens: "w \<in> set (py_split s) \<Longrightarrow> token w"
  using split_ws_tokens[of "[]" s] by (simp add: py_split_def)

lemma split_ws_append_nospace:
  "\<forall>c \<in> set w. \<not> is_space c \<Longrightarrow> split_ws cur (w @ rest) = split_ws (cur @ w) rest"
  by (induction w arbitrary: cur) auto

lemma py_split_join:
  "\<forall>w \<in> set ws. token w \<Longrightarrow> py_split (py_join [32] ws) = ws"
proof (induction "[32::nat]" ws rule: py_join.induct)
  case 1
  then show ?case by (simp add: py_split_def)
next
  case (2 x)
  then have "split_ws [] (x @ []) = split_ws ([] @ x) []"
    by (intro split_ws_append_nospace) (simp add: token_def)
  with 2 show ?case by (simp add: py_split_def token_def)
next
  case (3 x y ys)
  let ?rest = "py_join [32] (y # ys)"
  have "split_ws [] (x @ (32 # ?rest)) = split_ws ([] @ x) (32 # ?rest)"
    using 3 by (intro split_ws_append_nospace) (simp add: token_def)
  moreover have "x \<noteq> []" using 3 by (simp add: token_def)
  moreover have "split_ws [] ?rest = y # ys" using 3 by (simp add: py_split_def)
  ultimately show ?case by (simp add: py_split_def is_space_def)
qed

lemma py_join_nil: "py_join [] ws = concat ws"
  by (induction "[]::'a list" ws rule: py_join.induct) auto

lemma drop_concat_singletons:
  "\<forall>x \<in> set w. length x = 1 \<Longrightarrow> drop k (concat w) = concat (drop k w)"
proof (induction w arbitrary: k)
  case Nil
  then show ?case by simp
next
  case (Cons x w)
  then show ?case by (cases k) auto
qed

lemma concat_concat_map: "concat (map (concat \<circ> g) ws) = concat (concat (map g ws))"
  by (induction ws) auto

text \<open>
  C4 (amended). For \<open>chunk_size > 0\<close> and \<open>0 \<le> overlap < chunk_size\<close> the split returns,
  for every text. In character mode, dropping the first \<open>overlap\<close> characters of every
  chunk after the first and concatenating gives the text back exactly. In word mode the
  same holds for the words: the chunks, split into words again, with the first
  \<open>overlap\<close> words of every later chunk dropped, give the words of the text in order,
  and every chunk is its words joined by single spaces. The whitespace between the words
  of the text is not kept.
\<close>

theorem split_text_reassembles:
  assumes "0 < chunk_size cfg" "0 \<le> chunk_overlap cfg" "chunk_overlap cfg < chunk_size cfg"
  shows "\<exists>chunks. split_text cfg t = Some chunks \<and>
          (if cjk_dominant t then unoverlap (nat (chunk_overlap cfg)) chunks = t
           else unoverlap (nat (chunk_overlap cfg)) (map py_split chunks) = py_split t
                \<and> (\<forall>c \<in> set chunks. c = py_join [32] (py_split c)))"
proof (cases "cjk_dominant t")
  case True
  let ?units = "map (\<lambda>c. [c]) t"
  let ?k = "nat (chunk_overlap cfg)"
  from window_loop_total[OF assms, of 0 "[]" ?units "[]"]
  obtain W where W: "window_loop [] ?units (chunk_size cfg) (chunk_overlap cfg) 0 [] = Some (map (py_join []) W)"
    "\<forall>w \<in> set W. set w \<subseteq> set ?units"
    "if 0 < int (length ?units) then W \<noteq> [] \<and> unoverlap ?k W = drop (nat 0) ?units else W = []"
    by auto
  have un: "unoverlap ?k W = ?units"
    using W(3) by (cases "t = []") (auto simp: unoverlap_def)
  have single: "\<forall>w \<in> set W. \<forall>x \<in> set w. length x = 1"
    using W(2) by fastforce
  have "unoverlap ?k (map concat W) = concat (unoverlap ?k W)"
  proof (cases W)
    case Nil
    then show ?thesis by (simp add: unoverlap_def)
  next
    case (Cons w W')
    have eq: "map (drop ?k \<circ> concat) W' = map (concat \<circ> drop ?k) W'"
      using single Cons by (intro map_cong) (auto simp: drop_concat_singletons)
    have "concat (map (drop ?k \<circ> concat) W') = concat (concat (map (drop ?k) W'))"
      unfolding eq by (rule concat_concat_map)
    then show ?thesis using Cons by (simp add: unoverlap_Cons)
  qed
  also have "\<dots> = t" using un by (simp add: concat_map_singleton)
  finally have "unoverlap ?k (map (py_join []) W) = t" by (simp add: py_join_nil[abs_def])
  then show ?thesis
    using True W(1) assms by (simp add: split_text_def)
next
  case False
  let ?units = "py_split t"
  let ?k = "nat (chunk_overlap cfg)"
  from window_loop_total[OF assms, of 0 "[32]" ?units "[]"]
  obtain W where W: "window_loop [32] ?units (chunk_size cfg) (chunk_overlap cfg) 0 [] = Some (map (py_join [32]) W)"
    "\<forall>w \<in> set W. set w \<subseteq> set ?units"
    "if 0 < int (length ?units) then W \<noteq> [] \<and> unoverlap ?k W = drop (nat 0) ?units else W = []"
    by auto
  have un: "unoverlap ?k W = ?units"
    using W(3) by (cases "?units = []") (auto simp: unoverlap_def)
  have tok: "\<forall>w \<in> set W. \<forall>x \<in> set w. token x"
    using W(2) py_split_tokens by blast
  then have roundtrip: "map py_split (map (py_join [32]) W) = W"
    by (simp add: py_split_join map_idI)
  have norm: "\<forall>c \<in> set (map (py_join [32]) W). c = py_join [32] (py_split c)"
    using tok by (auto simp: py_split_join)
  show ?thesis
    using False W(1) assms un roundtrip norm by (simp add: split_text_def)
qed

theorem split_text_reassembles_witness:
  "0 < chunk_size (notex_config 2 1) \<and> 0 \<le> chunk_overlap (notex_config 2 1) \<and>
   chunk_overlap (notex_config 2 1) < chunk_size (notex_config 2 1) \<and>
   split_text (notex_config 2 1) (asc ''a b  c'') = Some [asc ''a b'', asc ''b c''] \<and>
   \<not> cjk_dominant (asc ''a b  c'') \<and>
   unoverlap 1 (map py_split [asc ''a b'', asc ''b c'']) = py_split (asc ''a b  c'')"
proof -
  have h: "0 < chunk_size (notex_config 2 1)" "0 \<le> chunk_overlap (notex_config 2 1)"
    "chunk_overlap (notex_config 2 1) < chunk_size (notex_config 2 1)"
    by (simp_all add: notex_config_def)
  have ev: "split_text (notex_config 2 1) (asc ''a b  c'') = Some [asc ''a b'', asc ''b c'']"
    by (simp add: notex_config_def split_text_def cjk_dominant_def cjk_ratio_def is_cjk_def asc_def
        py_split_def is_space_def window_loop.simps py_slice_def Let_def)
  have nc: "\<not> cjk_dominant (asc ''a b  c'')"
    by (simp add: cjk_dominant_def cjk_ratio_def is_cjk_def asc_def)
  show ?thesis
    using split_text_reassembles[OF h, of "asc ''a b  c''"] h ev nc
    by (simp add: notex_config_def)
qed

text \<open>
  C4 as stated fails in word mode: a text with two spaces between its words comes back
  as one chunk with a single space.
\<close>

theorem split_text_loses_whitespace:
  "split_text (notex_config 1000 200) (asc ''a  b'') = Some [asc ''a b''] \<and>
   unoverlap 200 [asc ''a b''] \<noteq> asc ''a  b''"
  by (simp add: notex_config_def split_text_def cjk_dominant_def cjk_ratio_def is_cjk_def asc_def
        py_split_def is_space_def window_loop.simps py_slice_def Let_def unoverlap_def)

subsection \<open>A step of zero or less never leaves the loop\<close>

lemma window_loop_stuck_aux:
  assumes "window_loop sep units csize coverlap i chunks = Some y"
  shows "\<not> (0 < csize \<and> csize \<le> coverlap \<and> i + csize < int (length units))"
proof (rule window_loop.raw_induct
    [where P = "\<lambda>sep units csize coverlap i chunks y.
                  \<not> (0 < csize \<and> csize \<le> coverlap \<and> i + csize < int (length units))",
     OF _ assms])
  fix loop :: "pystr \<Rightarrow> pystr list \<Rightarrow> int \<Rightarrow> int \<Rightarrow> int \<Rightarrow> pystr list \<Rightarrow> pystr list option"
  fix sep units csize coverlap i chunks y
  assume IH: "\<And>sep units csize coverlap i chunks y.
      loop sep units csize coverlap i chunks = Some y \<Longrightarrow>
      \<not> (0 < csize \<and> csize \<le> coverlap \<and> i + csize < int (length units))"
  assume body: "(if i < int (length units) then
        (let end = min (i + csize) (int (length units));
             chunk = py_join sep (py_slice units i end);
             chunks' = chunks @ [chunk]
         in if end \<ge> int (length units) then Some chunks'
            else loop sep units csize coverlap (i + (csize - coverlap)) chunks')
      else Some chunks) = Some y"
  show "\<not> (0 < csize \<and> csize \<le> coverlap \<and> i + csize < int (length units))"
  proof
    assume inv: "0 < csize \<and> csize \<le> coverlap \<and> i + csize < int (length units)"
    then have "loop sep units csize coverlap (i + (csize - coverlap))
                 (chunks @ [py_join sep (py_slice units i (min (i + csize) (int (length units))))]) = Some y"
      using body by (simp add: Let_def split: if_splits)
    from IH[OF this] inv show False by simp
  qed
qed

lemma window_loop_diverges:
  "0 < csize \<Longrightarrow> csize \<le> coverlap \<Longrightarrow> i + csize < int (length units) \<Longrightarrow>
   window_loop sep units csize coverlap i chunks = None"
  using window_loop_stuck_aux by (cases "window_loop sep units csize coverlap i chunks") blast+

text \<open>
  C1. With \<open>chunk_size = 1\<close> and \<open>overlap = 1\<close> the step is \<open>0\<close>; on the two-word text
  \<^verbatim>\<open>a b\<close> the loop does not return. The source has no clamp of the step.
\<close>

theorem split_text_overlap_ge_size_diverges:
  "split_text (notex_config 1 1) (asc ''a b'') = None"
  by (simp add: notex_config_def split_text_def cjk_dominant_def cjk_ratio_def is_cjk_def asc_def py_split_def
      is_space_def window_loop_diverges)

subsection \<open>Scenario A: 2500 words, windows of 1000 with overlap 200\<close>

lemma split_text_2500:
  assumes "\<not> cjk_dominant t" "length (py_split t) = 2500"
    "chunk_size cfg = 1000" "chunk_overlap cfg = 200"
  shows "split_text cfg t =
           Some [py_join [32] (py_slice (py_split t) 0 1000),
                 py_join [32] (py_slice (py_split t) 800 1800),
                 py_join [32] (py_slice (py_split t) 1600 2500)]"
proof -
  let ?u = "py_split t"
  have 3: "window_loop [32] ?u 1000 200 1600 cs = Some (cs @ [py_join [32] (py_slice ?u 1600 2500)])" for cs
    using assms(2) by (subst window_loop.simps) (simp add: Let_def)
  have 2: "window_loop [32] ?u 1000 200 800 cs = window_loop [32] ?u 1000 200 1600 (cs @ [py_join [32] (py_slice ?u 800 1800)])" for cs
    using assms(2) by (subst window_loop.simps) (simp add: Let_def)
  have 1: "window_loop [32] ?u 1000 200 0 cs = window_loop [32] ?u 1000 200 800 (cs @ [py_join [32] (py_slice ?u 0 1000)])" for cs
    using assms(2) by (subst window_loop.simps) (simp add: Let_def)
  show ?thesis using assms by (simp add: split_text_def 1 2 3)
qed

lemma filter_cjk_words: "filter is_cjk (concat (replicate n (asc ''w ''))) = []"
  by (induction n) (simp_all add: asc_def is_cjk_def)

lemma english_not_cjk: "\<not> cjk_dominant (concat (replicate n (asc ''w '')))"
  by (simp add: cjk_dominant_def cjk_ratio_def filter_cjk_words)

lemma split_words: "py_split (concat (replicate n (asc ''w ''))) = replicate n (asc ''w'')"
  by (induction n) (simp_all add: py_split_def asc_def is_space_def)

lemma english_2500_words: "length (py_split english_2500) = 2500"
  by (simp add: english_2500_def split_words)

text \<open>
  C5 (amended). Ingesting a word-mode text of 2500 words with \<open>chunk_size = 1000\<close> and
  \<open>overlap = 200\<close> stores exactly 3 chunks, for the word windows \<open>[0,1000)\<close>,
  \<open>[800,1800)\<close> and \<open>[1600,2500)\<close>, and returns 3: the third window reaches the end of
  the text, and the loop stops there.
\<close>

theorem ingest_2500_three_chunks:
  assumes "\<not> cjk_dominant t" "length (py_split t) = 2500"
    "chunk_size cfg = 1000" "chunk_overlap cfg = 200"
  shows "ingest_text cfg docs name t =
           Some (docs @
                 [\<lparr>page_content = py_join [32] (py_slice (py_split t) 0 1000), source = name, chunk = 0\<rparr>,
                  \<lparr>page_content = py_join [32] (py_slice (py_split t) 800 1800), source = name, chunk = 1\<rparr>,
                  \<lparr>page_content = py_join [32] (py_slice (py_split t) 1600 2500), source = name, chunk = 2\<rparr>],
                 3)"
  using split_text_2500[OF assms] by (simp add: ingest_text_def)

theorem ingest_2500_three_chunks_witness:
  "\<not> cjk_dominant english_2500 \<and> length (py_split english_2500) = 2500 \<and>
   map_option snd (ingest_text (notex_config 1000 200) [] (asc ''doc'') english_2500) = Some 3"
proof -
  have a: "\<not> cjk_dominant english_2500" by (simp add: english_2500_def english_not_cjk)
  have b: "chunk_size (notex_config 1000 200) = 1000" "chunk_overlap (notex_config 1000 200) = 200"
    by (simp_all add: notex_config_def)
  show ?thesis
    using ingest_2500_three_chunks[OF a english_2500_words b, of "[]" "asc ''doc''"] a english_2500_words
    by simp
qed

text \<open>C5 as stated fails: the count for such a text is not 4.\<close>

theorem ingest_2500_not_four_chunks:
  "map_option snd (ingest_text (notex_config 1000 200) [] (asc ''doc'') english_2500) \<noteq> Some 4"
proof -
  have a: "\<not> cjk_dominant english_2500" by (simp add: english_2500_def english_not_cjk)
  have b: "chunk_size (notex_config 1000 200) = 1000" "chunk_overlap (notex_config 1000 200) = 200"
    by (simp_all add: notex_config_def)
  show ?thesis
    using split_text_2500[OF a english_2500_words b] by (simp add: ingest_text_def)
qed

section \<open>Properties of the search\<close>

subsection \<open>The source's loops compute the specified score and ranking\<close>

lemma py_in_single: "py_in [c] s \<longleftrightarrow> c \<in> set s"
  by (induction s) auto

lemma word_loop_eq:
  "word_loop content ws s = s + 2 * of_nat (length (filter (\<lambda>w. length w > 2 \<and> py_in w content) ws))"
  by (induction ws arbitrary: s) (auto simp: algebra_simps)

lemma keyword_loop_eq:
  "keyword_loop q ks s = s + (if \<exists>k \<in> set ks. py_in k q then 1 else 0)"
  by (induction ks) auto

lemma score_doc_spec:
  "score_doc lower q d = spec_score q (lower (page_content d))"
  by (simp add: score_doc_def spec_score_def char_fraction_def Let_def word_loop_eq keyword_loop_eq
      py_in_single)

lemma spec_score_nonneg: "0 \<le> spec_score q content"
  by (simp add: spec_score_def char_fraction_def)

lemma score_loop_eq:
  "score_loop lower q docs scored =
     scored @ filter (\<lambda>p. snd p \<noteq> 0) (map (\<lambda>d. (d, spec_score q (lower (page_content d)))) docs)"
proof (induction docs arbitrary: scored)
  case Nil
  then show ?case by simp
next
  case (Cons d docs)
  have "0 < spec_score q (lower (page_content d)) \<longleftrightarrow> spec_score q (lower (page_content d)) \<noteq> 0"
    using spec_score_nonneg[of q "lower (page_content d)"] by linarith
  then show ?case by (simp add: Cons.IH Let_def score_doc_spec)
qed

lemma py_slice_take: "0 \<le> n \<Longrightarrow> py_slice xs 0 n = take (nat n) xs"
  by (simp add: py_slice_def Let_def min_def)

lemma similarity_search_spec:
  "similarity_search lower docs query limit = spec_search lower lower docs query limit"
  by (simp add: similarity_search_def spec_search_def spec_ranked_def sort_reverse_def score_loop_eq
      Let_def py_slice_take take_map)

lemma spec_ranked_empty:
  "\<forall>d \<in> set docs. \<not> 0 < score_doc lower (lower query) d \<Longrightarrow> spec_ranked lower lower docs query = []"
proof -
  assume a: "\<forall>d \<in> set docs. \<not> 0 < score_doc lower (lower query) d"
  have "spec_score (lower query) (lower (page_content d)) = 0" if "d \<in> set docs" for d
    using a that spec_score_nonneg[of "lower query" "lower (page_content d)"]
    by (fastforce simp: score_doc_spec)
  then show ?thesis by (simp add: spec_ranked_def filter_empty_conv)
qed

text \<open>
  C2. On an empty collection the search returns the empty list. On a non-empty collection
  where no document scores above 0 it returns the first \<open>limit\<close> documents in storage
  order (\<open>limit \<le> 0\<close> counts as 5). On a non-empty collection the result is never
  empty.
\<close>

theorem search_fallback:
  "similarity_search lower [] query limit = [] \<and>
   (docs \<noteq> [] \<longrightarrow> (\<forall>d \<in> set docs. \<not> 0 < score_doc lower (lower query) d) \<longrightarrow>
      similarity_search lower docs query limit = take (nat (if limit \<le> 0 then 5 else limit)) docs) \<and>
   (docs \<noteq> [] \<longrightarrow> similarity_search lower docs query limit \<noteq> [])"
proof (intro conjI impI)
  show "similarity_search lower [] query limit = []"
    by (simp add: similarity_search_def)
next
  assume "docs \<noteq> []" "\<forall>d \<in> set docs. \<not> 0 < score_doc lower (lower query) d"
  then show "similarity_search lower docs query limit = take (nat (if limit \<le> 0 then 5 else limit)) docs"
    by (simp add: similarity_search_spec spec_search_def spec_ranked_empty Let_def)
next
  assume ne: "docs \<noteq> []"
  let ?k = "nat (if limit \<le> 0 then 5 else limit)"
  let ?ranked = "sort_key (\<lambda>p. - snd p) (spec_ranked lower lower docs query)"
  have k: "0 < ?k" by simp
  have "take ?k xs \<noteq> []" if "xs \<noteq> []" for xs :: "document list"
    using that k by (cases xs) (auto simp: take_Cons')
  then have "take ?k docs \<noteq> []" "?ranked \<noteq> [] \<Longrightarrow> take ?k (map fst ?ranked) \<noteq> []"
    using ne by simp_all
  then show "similarity_search lower docs query limit \<noteq> []"
    using ne unfolding similarity_search_spec spec_search_def Let_def by presburger
qed

theorem search_fallback_witness:
  "score_doc ascii_lower (ascii_lower (asc ''a'')) (doc_of ''b'' 0) = 0 \<and>
   score_doc ascii_lower (ascii_lower (asc ''a'')) (doc_of ''c'' 1) = 0 \<and>
   similarity_search ascii_lower [doc_of ''b'' 0, doc_of ''c'' 1] (asc ''a'') 1 = [doc_of ''b'' 0] \<and>
   similarity_search ascii_lower [] (asc ''a'') 1 = []"
proof -
  have h: "score_doc ascii_lower (ascii_lower (asc ''a'')) (doc_of ''b'' 0) = 0"
    "score_doc ascii_lower (ascii_lower (asc ''a'')) (doc_of ''c'' 1) = 0"
    by (simp_all add: score_doc_def doc_of_def ascii_lower_def asc_def py_split_def is_space_def
        question_keywords_def Let_def)
  show ?thesis
    using search_fallback[of ascii_lower "asc ''a''" 1 "[doc_of ''b'' 0, doc_of ''c'' 1]"] h
    by simp
qed





section \<open>Properties of the slide parser\<close>


lemma split_at_nonempty: "split_at sep cur s \<noteq> []"
  by (induction sep cur s rule: split_at.induct) auto

lemma split_at_marker_present:
  "sep \<noteq> [] \<Longrightarrow> py_in sep s \<Longrightarrow> 2 \<le> length (split_at sep cur s)"
proof (induction s arbitrary: cur)
  case Nil
  then show ?case by simp
next
  case (Cons c cs)
  show ?case
  proof (cases "prefix sep (c # cs)")
    case True
    have "1 \<le> length (split_at sep [] (drop (length sep - 1) cs))"
      using split_at_nonempty[of sep "[]" "drop (length sep - 1) cs"]
      by (cases "split_at sep [] (drop (length sep - 1) cs)") auto
    then show ?thesis using True Cons.prems by simp
  next
    case False
    then have "py_in sep cs" using Cons.prems by simp
    then show ?thesis using False Cons.IH Cons.prems by simp
  qed
qed

lemma marker_parts_nonempty:
  "sep \<noteq> [] \<Longrightarrow> py_in sep s \<Longrightarrow> drop 1 (py_split_sep s sep) \<noteq> []"
  using split_at_marker_present[of sep s "[]"] by (simp add: py_split_sep_def)






section \<open>Properties of the external tool invoker\<close>











section \<open>Properties of the insight strategy\<close>






section \<open>Properties of the transform endpoint\<close>













end
